theory Spec2Isabelle
  imports Complex_Main "HOL-Library.Word"
begin

section \<open>Python and library primitives used by the camera controller\<close>

text \<open>
  The repository is two Python modules: \<^verbatim>\<open>camera_controller.py\<close> (class
  \<^verbatim>\<open>CameraController\<close>: a serial command channel, the actuator command
  vocabulary and the Laplacian autofocus sweep) and \<^verbatim>\<open>ai_camera_control.py\<close>
  (class \<^verbatim>\<open>AIFollower\<close>: the per-frame pan/tilt/zoom control law).

  Conventions of the embedding:
  \<^item> Python \<^verbatim>\<open>int\<close> is \<open>int\<close>; \<^verbatim>\<open>//\<close> is \<open>div\<close> (both
    round towards minus infinity).
  \<^item> Python \<^verbatim>\<open>float\<close> values are taken as exact rationals (\<open>rat\<close>): rounding
    error of the binary representation is not modelled. For the product
    \<^verbatim>\<open>dx * 0.1\<close> of an integer pixel error this agrees with the machine result
    after \<^verbatim>\<open>int()\<close>: the double nearest to 0.1 lies just above 1/10, so the
    magnitude of the product never falls below an integer that \<open>\<bar>dx\<bar> / 10\<close> reaches,
    and for pixel errors of any realistic size it stays below the next one.
  \<^item> Python \<^verbatim>\<open>str\<close> is \<open>string\<close>; a \<open>char\<close> stands for the code point of
    the same number (U+0000 to U+00FF), which covers the ASCII command vocabulary.
  \<^item> Bytes are \<open>8 word\<close>.
  \<^item> An exception is a value \<open>Inl e\<close> of a sum type.
  \<^item> Logging (\<^verbatim>\<open>_log\<close>, \<^verbatim>\<open>print\<close>) and \<^verbatim>\<open>time.sleep\<close> have no effect
    on the controller or the device and are left out.
\<close>

type_synonym byte = "8 word"

datatype error = ValueError | PortNotOpenError

definition bind_err :: "error + 'a \<Rightarrow> ('a \<Rightarrow> error + 'b) \<Rightarrow> error + 'b" where
  "bind_err m f = (case m of Inl e \<Rightarrow> Inl e | Inr x \<Rightarrow> f x)"

subsection \<open>Strings\<close>

text \<open>
  \<^verbatim>\<open>str.isspace\<close> on one character, for the code points below 256: the ASCII
  white space 0x09 to 0x0D, 0x1C to 0x20, and NEL (0x85) and NBSP (0xA0).
\<close>

definition isspace :: "char \<Rightarrow> bool" where
  "isspace c =
     (let n = (of_char c :: nat)
      in (9 \<le> n \<and> n \<le> 13) \<or> (28 \<le> n \<and> n \<le> 32) \<or> n = 133 \<or> n = 160)"

definition lstrip :: "string \<Rightarrow> string" where
  "lstrip s = dropWhile isspace s"

definition rstrip :: "string \<Rightarrow> string" where
  "rstrip s = rev (dropWhile isspace (rev s))"

text \<open>\<^verbatim>\<open>str.strip()\<close>: leading and trailing white space removed.\<close>

definition strip :: "string \<Rightarrow> string" where
  "strip s = rstrip (lstrip s)"

text \<open>
  \<^verbatim>\<open>str.encode("utf-8")\<close>: one byte for a code point below 0x80, two bytes
  (\<open>110xxxxx 10xxxxxx\<close>) for a code point from 0x80 to 0xFF.
\<close>

definition utf8_char :: "char \<Rightarrow> byte list" where
  "utf8_char c =
     (let n = (of_char c :: nat)
      in if n < 128 then [of_nat n]
         else [of_nat (192 + n div 64), of_nat (128 + n mod 64)])"

definition encode_utf8 :: "string \<Rightarrow> byte list" where
  "encode_utf8 s = concat (map utf8_char s)"

definition CRLF :: string where
  "CRLF = [char_of (13 :: nat), char_of (10 :: nat)]"

text \<open>Decimal text of an integer, as an f-string prints it.\<close>

definition digit_char :: "nat \<Rightarrow> char" where
  "digit_char d = ''0123456789'' ! d"

function str_nat :: "nat \<Rightarrow> string" where
  "str_nat n = (if n < 10 then [digit_char n] else str_nat (n div 10) @ [digit_char (n mod 10)])"
  by pat_completeness auto
termination
  by (relation "measure id") auto

declare str_nat.simps [simp del]

definition str_int :: "int \<Rightarrow> string" where
  "str_int i = (if i < 0 then CHR ''-'' # str_nat (nat (- i)) else str_nat (nat i))"

subsection \<open>Numbers\<close>

text \<open>\<^verbatim>\<open>int(x)\<close> of a float: truncation towards zero.\<close>

definition py_int :: "rat \<Rightarrow> int" where
  "py_int x = (if 0 \<le> x then \<lfloor>x\<rfloor> else \<lceil>x\<rceil>)"

text \<open>
  \<^verbatim>\<open>range(start, stop, step)\<close>: a zero step raises \<^verbatim>\<open>ValueError\<close>; otherwise the
  items are \<open>start + i * step\<close> for \<open>i\<close> below the length CPython computes
  (\<^verbatim>\<open>(hi - lo - 1) // step + 1\<close> when \<open>lo < hi\<close>, else 0, with the roles of
  \<open>start\<close> and \<open>stop\<close> exchanged for a negative step).
\<close>

definition range_length :: "int \<Rightarrow> int \<Rightarrow> int \<Rightarrow> nat" where
  "range_length start stop step =
     (let (lo, hi, st) = (if 0 < step then (start, stop, step) else (stop, start, - step))
      in if hi \<le> lo then 0 else nat ((hi - lo - 1) div st + 1))"

definition py_range :: "int \<Rightarrow> int \<Rightarrow> int \<Rightarrow> error + int list" where
  "py_range start stop step =
     (if step = 0 then Inl ValueError
      else Inr (map (\<lambda>i. start + int i * step) [0 ..< range_length start stop step]))"

text \<open>\<^verbatim>\<open>ndarray.var()\<close>: the mean of the squared deviations from the mean.\<close>

definition mean :: "rat list \<Rightarrow> rat" where
  "mean xs = sum_list xs / of_nat (length xs)"

definition var :: "rat list \<Rightarrow> rat" where
  "var xs = mean (map (\<lambda>x. (x - mean xs)\<^sup>2) xs)"

section \<open>The serial device and the video source\<close>

text \<open>
  The device side of \<^verbatim>\<open>serial.Serial\<close>: whether the port is open, every byte
  written to it so far (\<open>wire\<close>), and the text that the next calls of
  \<^verbatim>\<open>read_all().decode("utf-8", errors="ignore")\<close> will yield (\<open>inbox\<close>; when it
  is used up the device has nothing to say). As in pyserial, writing to or reading from
  a port that is not open raises.
\<close>

record serial_port =
  is_open :: bool
  wire :: "byte list"
  inbox :: "string list"

definition serial_write :: "serial_port \<Rightarrow> byte list \<Rightarrow> error + serial_port" where
  "serial_write ser data =
     (if is_open ser then Inr (ser\<lparr>wire := wire ser @ data\<rparr>) else Inl PortNotOpenError)"

definition serial_read_all :: "serial_port \<Rightarrow> error + (string \<times> serial_port)" where
  "serial_read_all ser =
     (if is_open ser
      then (case inbox ser of
              [] \<Rightarrow> Inr ([], ser)
            | r # rs \<Rightarrow> Inr (r, ser\<lparr>inbox := rs\<rparr>))
      else Inl PortNotOpenError)"

text \<open>
  A frame stands for the Laplacian response of its grey image
  (\<^verbatim>\<open>cv2.Laplacian(cv2.cvtColor(frame, COLOR_BGR2GRAY), CV_64F)\<close>), one value per
  pixel; an image has at least one pixel. A video source is open or not, and holds the
  outcomes of the reads to come: \<open>None\<close> for a read that fails (\<^verbatim>\<open>ret\<close> false).
  A source that has run out fails every read.
\<close>

datatype frame = Frame rat "rat list"

fun laplacian :: "frame \<Rightarrow> rat list" where
  "laplacian (Frame x xs) = x # xs"

record video_capture =
  isOpened :: bool
  pending :: "frame option list"

definition cap_read :: "video_capture \<Rightarrow> frame option \<times> video_capture" where
  "cap_read cap =
     (case pending cap of
        [] \<Rightarrow> (None, cap)
      | f # fs \<Rightarrow> (f, cap\<lparr>pending := fs\<rparr>))"

section \<open>CameraController\<close>

record camera_controller =
  port :: string
  baudrate :: int
  serial :: "serial_port option"

text \<open>
  \<^verbatim>\<open>__init__\<close>: \<open>opened\<close> is the outcome of \<^verbatim>\<open>serial.Serial(port, baudrate, ...)\<close>,
  an exception or the open port. Any exception leaves \<^verbatim>\<open>self.serial = None\<close>.
\<close>

definition init :: "string \<Rightarrow> int \<Rightarrow> 'e + serial_port \<Rightarrow> camera_controller" where
  "init p b opened =
     (case opened of
        Inr ser \<Rightarrow> \<lparr>port = p, baudrate = b, serial = Some ser\<rparr>
      | Inl exc \<Rightarrow> \<lparr>port = p, baudrate = b, serial = None\<rparr>)"

text \<open>The bytes of one command: \<^verbatim>\<open>(cmd.strip() + "\r\n").encode("utf-8")\<close>.\<close>

definition full_cmd :: "string \<Rightarrow> byte list" where
  "full_cmd cmd = encode_utf8 (strip cmd @ CRLF)"

definition send_command ::
    "camera_controller \<Rightarrow> string \<Rightarrow> error + (string option \<times> camera_controller)" where
  "send_command self cmd =
     (case serial self of
        None \<Rightarrow> Inr (None, self)
      | Some ser \<Rightarrow>
          if \<not> is_open ser then Inr (None, self)
          else bind_err (serial_write ser (full_cmd cmd)) (\<lambda>ser1.
               bind_err (serial_read_all ser1) (\<lambda>(response, ser2).
                 Inr (Some (strip response), self\<lparr>serial := Some ser2\<rparr>))))"

text \<open>A call \<^verbatim>\<open>self.send_command(cmd)\<close> as a statement: the response is dropped.\<close>

definition send :: "camera_controller \<Rightarrow> string \<Rightarrow> error + camera_controller" where
  "send self cmd = bind_err (send_command self cmd) (\<lambda>(response, self1). Inr self1)"

definition ir_on :: "camera_controller \<Rightarrow> error + camera_controller" where
  "ir_on self = send self ''M242 A1''"

definition ir_off :: "camera_controller \<Rightarrow> error + camera_controller" where
  "ir_off self = send self ''M242 A0''"

definition wake_up :: "camera_controller \<Rightarrow> error + camera_controller" where
  "wake_up self =
     bind_err (send self ''M238'') (\<lambda>self.
     bind_err (send self ''M8'') (\<lambda>self.
     bind_err (send self ''version'') (\<lambda>self.
     ir_off self)))"

definition autofocus :: "camera_controller \<Rightarrow> error + camera_controller" where
  "autofocus self =
     bind_err (send self ''G91'') (\<lambda>self.
     bind_err (send self ''M246'') (\<lambda>self.
     bind_err (send self ''M240 A50'') (\<lambda>self.
     bind_err (send self ''G0 A30000'') (\<lambda>self.
     send self ''M0 A''))))"

definition set_zoom :: "camera_controller \<Rightarrow> int \<Rightarrow> error + camera_controller" where
  "set_zoom self v =
     bind_err (send self (''G0 A'' @ str_int v)) (\<lambda>self. send self ''M0 A'')"

definition set_focus :: "camera_controller \<Rightarrow> int \<Rightarrow> error + camera_controller" where
  "set_focus self v =
     bind_err (send self (''G0 B'' @ str_int v)) (\<lambda>self. send self ''M0 B'')"

definition set_mode_day :: "camera_controller \<Rightarrow> error + camera_controller" where
  "set_mode_day self =
     bind_err (send self ''M241 A0'') (\<lambda>self.
     bind_err (send self ''M240 A50'') (\<lambda>self.
     bind_err (send self ''M250 A10'') (\<lambda>self.
     ir_off self)))"

definition set_mode_night :: "camera_controller \<Rightarrow> error + camera_controller" where
  "set_mode_night self =
     bind_err (send self ''M241 A0'') (\<lambda>self.
     bind_err (send self ''M240 A5'') (\<lambda>self.
     bind_err (send self ''M250 A40'') (\<lambda>self.
     ir_on self)))"

definition pan :: "camera_controller \<Rightarrow> int \<Rightarrow> error + camera_controller" where
  "pan self v =
     bind_err (send self (''G0 X'' @ str_int v)) (\<lambda>self. send self ''M0 X'')"

definition tilt :: "camera_controller \<Rightarrow> int \<Rightarrow> error + camera_controller" where
  "tilt self v =
     bind_err (send self (''G0 Y'' @ str_int v)) (\<lambda>self. send self ''M0 Y'')"

subsection \<open>The Laplacian autofocus sweep\<close>

text \<open>
  The body of the \<^verbatim>\<open>for focus in range(...)\<close> loop, run over the focus values
  still to visit; \<open>best_focus\<close> and \<open>best_value\<close> are the loop's two variables. A read
  that fails skips the sample (\<^verbatim>\<open>continue\<close>).
\<close>

fun focus_sweep ::
    "camera_controller \<Rightarrow> video_capture \<Rightarrow> int list \<Rightarrow> int \<Rightarrow> rat
      \<Rightarrow> error + (int \<times> rat \<times> camera_controller \<times> video_capture)" where
  "focus_sweep self cap [] best_focus best_value = Inr (best_focus, best_value, self, cap)"
| "focus_sweep self cap (focus # rest) best_focus best_value =
     bind_err (set_focus self focus) (\<lambda>self1.
       case cap_read cap of
         (None, cap1) \<Rightarrow> focus_sweep self1 cap1 rest best_focus best_value
       | (Some frame, cap1) \<Rightarrow>
           (let v = var (laplacian frame)
            in if v > best_value
               then focus_sweep self1 cap1 rest focus v
               else focus_sweep self1 cap1 rest best_focus best_value))"

text \<open>
  \<^verbatim>\<open>autofocus_loop\<close>: \<open>cap\<close> is what \<^verbatim>\<open>cv2.VideoCapture(video_device)\<close>
  returned. The result is the controller after the final \<^verbatim>\<open>set_focus(best_focus)\<close>.
\<close>

definition autofocus_loop ::
    "camera_controller \<Rightarrow> video_capture \<Rightarrow> int \<Rightarrow> int \<Rightarrow> int \<Rightarrow> error + camera_controller" where
  "autofocus_loop self cap min_focus max_focus step =
     (if \<not> isOpened cap then Inr self
      else bind_err (py_range min_focus (max_focus + 1) step) (\<lambda>grid.
           bind_err (focus_sweep self cap grid min_focus (- 1)) (\<lambda>(best_focus, best_value, self1, cap1).
             set_focus self1 best_focus)))"

section \<open>AIFollower\<close>

text \<open>
  A detection box as the loop reads it: the class (\<^verbatim>\<open>box.cls[0]\<close>) and the corners
  (\<^verbatim>\<open>box.xyxy[0]\<close>), all floats.
\<close>

record box =
  cls :: rat
  xyxy :: "rat \<times> rat \<times> rat \<times> rat"

text \<open>The first box of class 0 (person), if any.\<close>

definition find_person :: "box list \<Rightarrow> box option" where
  "find_person boxes = find (\<lambda>b. py_int (cls b) = 0) boxes"

definition Kp :: rat where
  "Kp = 1 / 10"

text \<open>\<^verbatim>\<open>int(dx * 0.1)\<close>, the value computed for pan from \<open>dx\<close> and for tilt from \<open>dy\<close>.\<close>

definition axis_val :: "int \<Rightarrow> int" where
  "axis_val d = py_int (of_int d * Kp)"

text \<open>\<^verbatim>\<open>int(10000 + (frame_width - bbox_width) * 5)\<close>.\<close>

definition zoom_value :: "int \<Rightarrow> rat \<Rightarrow> int" where
  "zoom_value frame_width bbox_width = py_int (10000 + (of_int frame_width - bbox_width) * 5)"

text \<open>The branch \<^verbatim>\<open>if person is not None\<close> of the loop body.\<close>

definition track_person ::
    "camera_controller \<Rightarrow> int \<Rightarrow> int \<Rightarrow> box \<Rightarrow> error + camera_controller" where
  "track_person controller frame_width frame_height person =
     (let center_x = frame_width div 2;
          center_y = frame_height div 2;
          (x1, y1, x2, y2) = xyxy person;
          obj_center_x = py_int ((x1 + x2) / 2);
          obj_center_y = py_int ((y1 + y2) / 2);
          dx = obj_center_x - center_x;
          dy = obj_center_y - center_y;
          pan_val = axis_val dx;
          tilt_val = axis_val dy
      in bind_err (if \<bar>pan_val\<bar> > 1 then pan controller pan_val else Inr controller) (\<lambda>controller.
         bind_err (if \<bar>tilt_val\<bar> > 1 then tilt controller tilt_val else Inr controller) (\<lambda>controller.
           (let bbox_width = x2 - x1;
                zoom = zoom_value frame_width bbox_width
            in set_zoom controller zoom))))"

text \<open>
  One pass of the loop body from the detector's boxes to the zoom command: the first
  person, if there is one, is tracked; without one nothing is sent.
\<close>

definition process_frame ::
    "camera_controller \<Rightarrow> int \<Rightarrow> int \<Rightarrow> box list \<Rightarrow> error + camera_controller" where
  "process_frame controller frame_width frame_height boxes =
     (case find_person boxes of
        None \<Rightarrow> Inr controller
      | Some person \<Rightarrow> track_person controller frame_width frame_height person)"

text \<open>
  The video source as \<^verbatim>\<open>run\<close> sees it: whether it opened, the frame size it
  reports, and for each read to come either \<open>None\<close> (the read fails) or the boxes the
  detector finds in the frame together with the key \<^verbatim>\<open>cv2.waitKey(1)\<close> reports
  after it.
\<close>

record video_source =
  src_opened :: bool
  src_width :: int
  src_height :: int
  upcoming :: "(box list \<times> int) option list"

text \<open>
  The \<^verbatim>\<open>while True\<close> loop: a failed read ends it, as the end of the source and
  key 27 do.
\<close>

fun run_loop ::
    "camera_controller \<Rightarrow> int \<Rightarrow> int \<Rightarrow> (box list \<times> int) option list \<Rightarrow> error + camera_controller" where
  "run_loop controller frame_width frame_height [] = Inr controller"
| "run_loop controller frame_width frame_height (None # rest) = Inr controller"
| "run_loop controller frame_width frame_height (Some (boxes, key) # rest) =
     bind_err (process_frame controller frame_width frame_height boxes) (\<lambda>controller.
       if key = 27 then Inr controller
       else run_loop controller frame_width frame_height rest)"

definition run :: "camera_controller \<Rightarrow> video_source \<Rightarrow> error + camera_controller" where
  "run controller src =
     (if \<not> src_opened src then Inr controller
      else run_loop controller (src_width src) (src_height src) (upcoming src))"

section \<open>Vocabulary of the properties\<close>

text \<open>
  The channel is closed when \<^verbatim>\<open>send_command\<close>'s guard
  \<^verbatim>\<open>not self.serial or not self.serial.is_open\<close> holds.
\<close>

definition channel_closed :: "camera_controller \<Rightarrow> bool" where
  "channel_closed self = (case serial self of None \<Rightarrow> True | Some ser \<Rightarrow> \<not> is_open ser)"

text \<open>
  The port once the commands \<open>cmds\<close> have gone out in order: their bytes are on the
  wire and one pending response has been read for each.
\<close>

definition transmit :: "serial_port \<Rightarrow> string list \<Rightarrow> serial_port" where
  "transmit ser cmds =
     ser\<lparr>wire := wire ser @ concat (map full_cmd cmds),
         inbox := drop (length cmds) (inbox ser)\<rparr>"

text \<open>
  The controller once \<open>cmds\<close> have been sent in order: on an open channel the port has
  transmitted them, on a closed one nothing changes.
\<close>

definition after :: "camera_controller \<Rightarrow> string list \<Rightarrow> camera_controller" where
  "after self cmds =
     (case serial self of
        None \<Rightarrow> self
      | Some ser \<Rightarrow> if is_open ser then self\<lparr>serial := Some (transmit ser cmds)\<rparr> else self)"

text \<open>The two commands of \<^verbatim>\<open>set_focus(v)\<close>, and those of a whole sweep.\<close>

definition focus_cmds :: "int \<Rightarrow> string list" where
  "focus_cmds v = [''G0 B'' @ str_int v, ''M0 B'']"

definition sweep_cmds :: "int list \<Rightarrow> string list" where
  "sweep_cmds grid = concat (map focus_cmds grid)"

text \<open>The commands of \<^verbatim>\<open>pan(v)\<close>, \<^verbatim>\<open>tilt(v)\<close> and \<^verbatim>\<open>set_zoom(v)\<close>.\<close>

definition pan_cmds :: "int \<Rightarrow> string list" where
  "pan_cmds v = [''G0 X'' @ str_int v, ''M0 X'']"

definition tilt_cmds :: "int \<Rightarrow> string list" where
  "tilt_cmds v = [''G0 Y'' @ str_int v, ''M0 Y'']"

definition zoom_cmds :: "int \<Rightarrow> string list" where
  "zoom_cmds v = [''G0 A'' @ str_int v, ''M0 A'']"

text \<open>The methods of \<^verbatim>\<open>CameraController\<close> as operations a caller can invoke.\<close>

datatype operation =
    SendCommand string
  | WakeUp
  | Autofocus
  | SetZoom int
  | SetFocus int
  | IrOn
  | IrOff
  | SetModeDay
  | SetModeNight
  | Pan int
  | Tilt int
  | AutofocusLoop video_capture int int int

fun call :: "camera_controller \<Rightarrow> operation \<Rightarrow> error + camera_controller" where
  "call self (SendCommand cmd) = send self cmd"
| "call self WakeUp = wake_up self"
| "call self Autofocus = autofocus self"
| "call self (SetZoom v) = set_zoom self v"
| "call self (SetFocus v) = set_focus self v"
| "call self IrOn = ir_on self"
| "call self IrOff = ir_off self"
| "call self SetModeDay = set_mode_day self"
| "call self SetModeNight = set_mode_night self"
| "call self (Pan v) = pan self v"
| "call self (Tilt v) = tilt self v"
| "call self (AutofocusLoop cap min_focus max_focus step) =
     autofocus_loop self cap min_focus max_focus step"

fun call_all :: "camera_controller \<Rightarrow> operation list \<Rightarrow> error + camera_controller" where
  "call_all self [] = Inr self"
| "call_all self (op1 # ops) = bind_err (call self op1) (\<lambda>self1. call_all self1 ops)"

text \<open>
  The one call that raises whatever the channel: an autofocus sweep with step 0 on an
  opened video source (\<^verbatim>\<open>range()\<close> refuses the step).
\<close>

fun zero_step :: "operation \<Rightarrow> bool" where
  "zero_step (AutofocusLoop cap min_focus max_focus step) = (isOpened cap \<and> step = 0)"
| "zero_step _ = False"

text \<open>
  The samples of a sweep over \<open>grid\<close> from a source whose coming reads are \<open>fs\<close>: each
  focus value with the sharpness measured there, \<open>None\<close> where the read fails.
\<close>

fun sweep_samples :: "int list \<Rightarrow> frame option list \<Rightarrow> (int \<times> rat option) list" where
  "sweep_samples [] fs = []"
| "sweep_samples (focus # rest) [] = (focus, None) # sweep_samples rest []"
| "sweep_samples (focus # rest) (f # fs) =
     (focus, map_option (\<lambda>frame. var (laplacian frame)) f) # sweep_samples rest fs"

text \<open>The loop's two variables after the samples \<open>ss\<close>, without the device.\<close>

fun track :: "(int \<times> rat option) list \<Rightarrow> int \<Rightarrow> rat \<Rightarrow> int \<times> rat" where
  "track [] best_focus best_value = (best_focus, best_value)"
| "track ((focus, None) # rest) best_focus best_value = track rest best_focus best_value"
| "track ((focus, Some v) # rest) best_focus best_value =
     (if v > best_value then track rest focus v else track rest best_focus best_value)"

text \<open>
  Every sharpness measured in the samples \<open>ss\<close> is at most \<open>b\<close> (\<open>all_le\<close>), or
  strictly below \<open>b\<close> (\<open>all_less\<close>); a failed read measures nothing.
\<close>

definition all_le :: "(int \<times> rat option) list \<Rightarrow> rat \<Rightarrow> bool" where
  "all_le ss b = (\<forall>(g, s)\<in>set ss. case s of None \<Rightarrow> True | Some w \<Rightarrow> w \<le> b)"

definition all_less :: "(int \<times> rat option) list \<Rightarrow> rat \<Rightarrow> bool" where
  "all_less ss b = (\<forall>(g, s)\<in>set ss. case s of None \<Rightarrow> True | Some w \<Rightarrow> w < b)"

text \<open>
  The specification's wording of the proportional output, \<open>round(d * Kp)\<close>, to compare
  with \<open>axis_val\<close>.
\<close>

definition spec_axis_val :: "int \<Rightarrow> int" where
  "spec_axis_val d = round (of_int d * Kp)"

text \<open>Concrete devices for the examples.\<close>

definition open_port :: serial_port where
  "open_port = \<lparr>is_open = True, wire = [], inbox = []\<rparr>"

definition open_controller :: camera_controller where
  "open_controller = init ''/dev/ttyACM0'' 115200 (Inr open_port :: error + serial_port)"

definition closed_controller :: camera_controller where
  "closed_controller = init ''/dev/ttyACM0'' 115200 (Inl PortNotOpenError :: error + serial_port)"

text \<open>
  Video sources for the examples, four reads each at most: one whose sharpness has a
  single maximum (at the third sample), one with a failed read and two equal maxima
  (second and fourth sample), one whose reads all fail, and one whose only frame is a
  uniform image (Laplacian response 0 everywhere, sharpness 0).
\<close>

definition demo_capture :: video_capture where
  "demo_capture =
     \<lparr>isOpened = True,
      pending = [Some (Frame 1 [2, 3]), Some (Frame 0 [0, 3]), Some (Frame 0 [2, 4]), Some (Frame 1 [1, 1])]\<rparr>"

definition tie_capture :: video_capture where
  "tie_capture =
     \<lparr>isOpened = True,
      pending = [Some (Frame 1 [2, 3]), Some (Frame 0 [0, 3]), None, Some (Frame 3 [0, 0])]\<rparr>"

definition failing_capture :: video_capture where
  "failing_capture = \<lparr>isOpened = True, pending = [None, None]\<rparr>"

definition uniform_capture :: video_capture where
  "uniform_capture = \<lparr>isOpened = True, pending = [None, Some (Frame 0 [0, 0]), None]\<rparr>"

section \<open>Auxiliary lemmas\<close>

subsection \<open>Sending commands\<close>

lemma bind_err_Inr [simp]: "bind_err (Inr x) f = f x"
  by (simp add: bind_err_def)

lemma bind_err_Inl [simp]: "bind_err (Inl e) f = Inl e"
  by (simp add: bind_err_def)

lemma send_command_closed:
  "channel_closed self \<Longrightarrow> send_command self cmd = Inr (None, self)"
  by (simp add: channel_closed_def send_command_def split: option.splits)

lemma send_command_open:
  assumes "serial self = Some ser" and "is_open ser"
  shows "send_command self cmd =
           Inr (Some (strip (case inbox ser of [] \<Rightarrow> [] | r # rs \<Rightarrow> r)),
                self\<lparr>serial := Some (transmit ser [cmd])\<rparr>)"
  using assms
  by (simp add: send_command_def serial_write_def serial_read_all_def transmit_def
      split: list.splits)

lemma send_after: "send self cmd = Inr (after self [cmd])"
proof (cases "channel_closed self")
  case True
  then show ?thesis
    by (auto simp: send_def send_command_closed after_def channel_closed_def split: option.splits)
next
  case False
  then obtain ser where s: "serial self = Some ser" "is_open ser"
    by (auto simp: channel_closed_def split: option.splits)
  then show ?thesis
    by (simp add: send_def send_command_open after_def)
qed

lemma transmit_append: "transmit (transmit ser xs) ys = transmit ser (xs @ ys)"
  by (simp add: transmit_def add.commute)

lemma is_open_transmit [simp]: "is_open (transmit ser xs) = is_open ser"
  by (simp add: transmit_def)

lemma wire_transmit: "wire (transmit ser xs) = wire ser @ concat (map full_cmd xs)"
  by (simp add: transmit_def)

lemma after_append: "after (after self xs) ys = after self (xs @ ys)"
  by (simp add: after_def transmit_append split: option.splits)

lemma after_Nil [simp]: "after self [] = self"
  by (simp add: after_def transmit_def split: option.splits)

lemma after_closed: "channel_closed self \<Longrightarrow> after self xs = self"
  by (simp add: after_def channel_closed_def split: option.splits)

lemma after_open:
  "serial self = Some ser \<Longrightarrow> is_open ser \<Longrightarrow> after self xs = self\<lparr>serial := Some (transmit ser xs)\<rparr>"
  by (simp add: after_def)

lemma after_open_controller_wire:
  "map_option wire (serial (after open_controller cmds)) = Some (concat (map full_cmd cmds))"
  by (simp add: after_def open_controller_def init_def open_port_def transmit_def)

lemma ir_on_after: "ir_on self = Inr (after self [''M242 A1''])"
  by (simp add: ir_on_def send_after)

lemma ir_off_after: "ir_off self = Inr (after self [''M242 A0''])"
  by (simp add: ir_off_def send_after)

lemma wake_up_after: "wake_up self = Inr (after self [''M238'', ''M8'', ''version'', ''M242 A0''])"
  by (simp add: wake_up_def send_after ir_off_after after_append)

lemma autofocus_after:
  "autofocus self = Inr (after self [''G91'', ''M246'', ''M240 A50'', ''G0 A30000'', ''M0 A''])"
  by (simp add: autofocus_def send_after after_append)

lemma set_zoom_after: "set_zoom self v = Inr (after self [''G0 A'' @ str_int v, ''M0 A''])"
  by (simp add: set_zoom_def send_after after_append)

lemma set_focus_after: "set_focus self v = Inr (after self [''G0 B'' @ str_int v, ''M0 B''])"
  by (simp add: set_focus_def send_after after_append)

lemma set_mode_day_after:
  "set_mode_day self = Inr (after self [''M241 A0'', ''M240 A50'', ''M250 A10'', ''M242 A0''])"
  by (simp add: set_mode_day_def send_after ir_off_after after_append)

lemma set_mode_night_after:
  "set_mode_night self = Inr (after self [''M241 A0'', ''M240 A5'', ''M250 A40'', ''M242 A1''])"
  by (simp add: set_mode_night_def send_after ir_on_after after_append)

lemma pan_after: "pan self v = Inr (after self [''G0 X'' @ str_int v, ''M0 X''])"
  by (simp add: pan_def send_after after_append)

lemma tilt_after: "tilt self v = Inr (after self [''G0 Y'' @ str_int v, ''M0 Y''])"
  by (simp add: tilt_def send_after after_append)

subsection \<open>Stripping and encoding\<close>

lemma lstrip_spaces: "\<forall>c\<in>set l. isspace c \<Longrightarrow> lstrip (l @ s) = lstrip s"
  by (simp add: lstrip_def dropWhile_append2)

lemma rstrip_spaces:
  assumes "\<forall>c\<in>set r. isspace c"
  shows "rstrip (s @ r) = rstrip s"
proof -
  have "dropWhile isspace (rev r @ rev s) = dropWhile isspace (rev s)"
    using assms by (intro dropWhile_append2) simp
  then show ?thesis
    by (simp add: rstrip_def)
qed

lemma lstrip_append_spaces:
  assumes "\<forall>c\<in>set r. isspace c"
  shows "rstrip (lstrip (s @ r)) = rstrip (lstrip s)"
proof (cases "\<forall>c\<in>set s. isspace c")
  case True
  then have "lstrip (s @ r) = lstrip r" "lstrip s = []"
    by (simp_all add: lstrip_def dropWhile_append2)
  moreover have "lstrip r = []"
    using assms by (simp add: lstrip_def)
  ultimately show ?thesis by simp
next
  case False
  then have "lstrip (s @ r) = lstrip s @ r"
    by (auto simp: lstrip_def dropWhile_append1)
  then show ?thesis
    using assms by (simp add: rstrip_spaces)
qed

lemma strip_surrounding:
  assumes "\<forall>c\<in>set l. isspace c" and "\<forall>c\<in>set r. isspace c"
  shows "strip (l @ s @ r) = strip s"
proof -
  have "lstrip (l @ s @ r) = lstrip (s @ r)"
    using assms(1) by (rule lstrip_spaces)
  then show ?thesis
    using assms(2) by (simp add: strip_def lstrip_append_spaces)
qed

lemma strip_last_not_space:
  assumes "strip s \<noteq> []"
  shows "\<not> isspace (last (strip s))"
proof -
  let ?d = "dropWhile isspace (rev (lstrip s))"
  have ne: "?d \<noteq> []"
    using assms by (simp add: strip_def rstrip_def)
  then have "\<not> isspace (hd ?d)"
    by (rule hd_dropWhile)
  moreover have "last (strip s) = hd ?d"
    using ne by (simp add: strip_def rstrip_def last_rev)
  ultimately show ?thesis by simp
qed

lemma encode_utf8_append: "encode_utf8 (a @ b) = encode_utf8 a @ encode_utf8 b"
  by (simp add: encode_utf8_def)

lemma encode_utf8_CRLF: "encode_utf8 CRLF = [13, 10]"
  by code_simp

lemma full_cmd_bytes: "full_cmd cmd = encode_utf8 (strip cmd) @ [13, 10]"
  by (simp add: full_cmd_def encode_utf8_append encode_utf8_CRLF)

lemma utf8_char_not_empty: "utf8_char c \<noteq> []"
  by (simp add: utf8_char_def Let_def)

lemma unat_of_nat_byte: "n < 256 \<Longrightarrow> unat (of_nat n :: byte) = n"
  by (simp add: unat_of_nat)

lemma byte_of_nat_neq:
  assumes "n < 256" and "n \<noteq> 10"
  shows "(of_nat n :: byte) \<noteq> 10"
proof
  assume "(of_nat n :: byte) = 10"
  then have "unat (of_nat n :: byte) = unat (10 :: byte)"
    by simp
  then show False
    using assms by (simp add: unat_of_nat_byte)
qed

lemma last_utf8_char:
  assumes "\<not> isspace c"
  shows "last (utf8_char c) \<noteq> 10"
proof (cases "(of_char c :: nat) < 128")
  case True
  have "of_char c \<noteq> (10 :: nat)"
    using assms by (auto simp: isspace_def Let_def)
  then have "(of_nat (of_char c) :: byte) \<noteq> 10"
    using True by (intro byte_of_nat_neq) simp_all
  then show ?thesis
    using True by (simp add: utf8_char_def Let_def)
next
  case False
  have "(of_char c :: nat) mod 64 < 64"
    by simp
  then have "(of_nat (128 + (of_char c :: nat) mod 64) :: byte) \<noteq> 10"
    by (intro byte_of_nat_neq) linarith+
  then show ?thesis
    using False by (simp add: utf8_char_def Let_def del: of_nat_add)
qed

lemma last_encode_utf8:
  assumes "s \<noteq> []" and "\<not> isspace (last s)"
  shows "encode_utf8 s \<noteq> [] \<and> last (encode_utf8 s) \<noteq> 10"
proof -
  obtain t c where s: "s = t @ [c]"
    using assms(1) by (metis append_butlast_last_id)
  then have "encode_utf8 s = encode_utf8 t @ utf8_char c"
    by (simp add: encode_utf8_def)
  moreover have "\<not> isspace c"
    using assms(2) s by simp
  ultimately show ?thesis
    by (simp add: utf8_char_not_empty last_utf8_char)
qed

lemma encode_utf8_Nil_iff: "encode_utf8 s = [] \<longleftrightarrow> s = []"
  by (cases s) (simp_all add: encode_utf8_def utf8_char_not_empty)

lemma stripped_no_terminator: "encode_utf8 (strip cmd) \<noteq> pre @ [13, 10]"
proof (cases "strip cmd = []")
  case True
  then show ?thesis by (simp add: encode_utf8_def)
next
  case False
  then have "last (encode_utf8 (strip cmd)) \<noteq> 10"
    using last_encode_utf8 strip_last_not_space by blast
  then show ?thesis by auto
qed

subsection \<open>The sweep\<close>

lemma set_focus_sends: "set_focus self v = Inr (after self (focus_cmds v))"
  by (simp add: set_focus_after focus_cmds_def)

lemma map_fst_sweep_samples: "map fst (sweep_samples grid fs) = grid"
  by (induction grid fs rule: sweep_samples.induct) simp_all

lemma mean_nonneg: "(\<And>x. x \<in> set xs \<Longrightarrow> 0 \<le> x) \<Longrightarrow> 0 \<le> mean xs"
  by (simp add: mean_def sum_list_nonneg)

lemma var_nonneg: "0 \<le> var xs"
  unfolding var_def by (rule mean_nonneg) auto

lemma sweep_samples_nonneg:
  "(g, Some w) \<in> set (sweep_samples grid fs) \<Longrightarrow> 0 \<le> w"
proof (induction grid fs rule: sweep_samples.induct)
  case (3 focus rest f fs)
  then show ?case
    by (cases f) (auto simp: var_nonneg)
qed simp_all

lemma focus_sweep_track:
  "focus_sweep self cap grid best_focus best_value =
     Inr (fst (track (sweep_samples grid (pending cap)) best_focus best_value),
          snd (track (sweep_samples grid (pending cap)) best_focus best_value),
          after self (sweep_cmds grid),
          cap\<lparr>pending := drop (length grid) (pending cap)\<rparr>)"
proof (induction grid arbitrary: self cap best_focus best_value)
  case Nil
  then show ?case by (simp add: sweep_cmds_def)
next
  case (Cons focus rest)
  have cmds: "sweep_cmds (focus # rest) = focus_cmds focus @ sweep_cmds rest"
    by (simp add: sweep_cmds_def)
  let ?self1 = "after self (focus_cmds focus)"
  have aft: "after ?self1 (sweep_cmds rest) = after self (sweep_cmds (focus # rest))"
    by (simp only: cmds after_append)
  have sf: "set_focus self focus = Inr ?self1"
    by (rule set_focus_sends)
  show ?case
  proof (cases "pending cap")
    case Nil
    then have rd: "cap_read cap = (None, cap)"
      by (simp add: cap_read_def)
    have "focus_sweep self cap (focus # rest) best_focus best_value =
            focus_sweep ?self1 cap rest best_focus best_value"
      by (simp add: sf rd)
    then show ?thesis
      by (simp add: Cons.IH aft Nil)
  next
    case c: (Cons f fs)
    then have rd: "cap_read cap = (f, cap\<lparr>pending := fs\<rparr>)"
      by (simp add: cap_read_def)
    show ?thesis
    proof (cases f)
      case None
      have "focus_sweep self cap (focus # rest) best_focus best_value =
              focus_sweep ?self1 (cap\<lparr>pending := fs\<rparr>) rest best_focus best_value"
        by (simp add: sf rd None)
      then show ?thesis
        by (simp add: Cons.IH aft c None)
    next
      case (Some fr)
      show ?thesis
      proof (cases "var (laplacian fr) > best_value")
        case True
        have "focus_sweep self cap (focus # rest) best_focus best_value =
                focus_sweep ?self1 (cap\<lparr>pending := fs\<rparr>) rest focus (var (laplacian fr))"
          by (simp add: sf rd Some True)
        then show ?thesis
          by (simp add: Cons.IH aft c Some True)
      next
        case False
        have "focus_sweep self cap (focus # rest) best_focus best_value =
                focus_sweep ?self1 (cap\<lparr>pending := fs\<rparr>) rest best_focus best_value"
          by (simp add: sf rd Some False)
        then show ?thesis
          by (simp add: Cons.IH aft c Some False)
      qed
    qed
  qed
qed

lemma all_less_Nil [simp]: "all_less [] b"
  by (simp add: all_less_def)

lemma all_le_Cons_None [simp]: "all_le ((g, None) # ss) b = all_le ss b"
  by (simp add: all_le_def)

lemma all_less_Cons_None [simp]: "all_less ((g, None) # ss) b = all_less ss b"
  by (simp add: all_less_def)

lemma all_le_Cons_Some [simp]: "all_le ((g, Some v) # ss) b = (v \<le> b \<and> all_le ss b)"
  by (simp add: all_le_def)

lemma all_less_Cons_Some [simp]: "all_less ((g, Some v) # ss) b = (v < b \<and> all_less ss b)"
  by (simp add: all_less_def)

lemma track_cases:
  "(track ss best_focus best_value = (best_focus, best_value) \<and> all_le ss best_value)
   \<or> (\<exists>pre post bf bv. track ss best_focus best_value = (bf, bv) \<and>
         ss = pre @ (bf, Some bv) # post \<and> best_value < bv \<and> all_less pre bv \<and> all_le post bv)"
proof (induction ss best_focus best_value rule: track.induct)
  case (1 best_focus best_value)
  then show ?case by (simp add: all_le_def)
next
  case (2 focus rest best_focus best_value)
  from "2.IH" show ?case
  proof (elim disjE exE conjE)
    assume "track rest best_focus best_value = (best_focus, best_value)" "all_le rest best_value"
    then show ?thesis by simp
  next
    fix pre post bf bv
    assume "track rest best_focus best_value = (bf, bv)" "rest = pre @ (bf, Some bv) # post"
      "best_value < bv" "all_less pre bv" "all_le post bv"
    then have "track ((focus, None) # rest) best_focus best_value = (bf, bv) \<and>
      (focus, None) # rest = ((focus, None) # pre) @ (bf, Some bv) # post \<and> best_value < bv \<and>
      all_less ((focus, None) # pre) bv \<and> all_le post bv"
      by simp
    then show ?thesis by blast
  qed
next
  case (3 focus v rest best_focus best_value)
  show ?case
  proof (cases "v > best_value")
    case True
    from "3.IH"(1) [OF True] show ?thesis
    proof (elim disjE exE conjE)
      assume "track rest focus v = (focus, v)" "all_le rest v"
      then have "track ((focus, Some v) # rest) best_focus best_value = (focus, v) \<and>
        (focus, Some v) # rest = [] @ (focus, Some v) # rest \<and> best_value < v \<and>
        all_less [] v \<and> all_le rest v"
        using True by simp
      then show ?thesis by blast
    next
      fix pre post bf bv
      assume "track rest focus v = (bf, bv)" "rest = pre @ (bf, Some bv) # post"
        "v < bv" "all_less pre bv" "all_le post bv"
      then have "track ((focus, Some v) # rest) best_focus best_value = (bf, bv) \<and>
        (focus, Some v) # rest = ((focus, Some v) # pre) @ (bf, Some bv) # post \<and> best_value < bv \<and>
        all_less ((focus, Some v) # pre) bv \<and> all_le post bv"
        using True by simp
      then show ?thesis by blast
    qed
  next
    case False
    from "3.IH"(2) [OF False] show ?thesis
    proof (elim disjE exE conjE)
      assume "track rest best_focus best_value = (best_focus, best_value)" "all_le rest best_value"
      then show ?thesis using False by simp
    next
      fix pre post bf bv
      assume "track rest best_focus best_value = (bf, bv)" "rest = pre @ (bf, Some bv) # post"
        "best_value < bv" "all_less pre bv" "all_le post bv"
      then have "track ((focus, Some v) # rest) best_focus best_value = (bf, bv) \<and>
        (focus, Some v) # rest = ((focus, Some v) # pre) @ (bf, Some bv) # post \<and> best_value < bv \<and>
        all_less ((focus, Some v) # pre) bv \<and> all_le post bv"
        using False by simp
      then show ?thesis by blast
    qed
  qed
qed

subsection \<open>The focus grid\<close>

lemma le_div_iff_int:
  fixes a b c :: int
  assumes "0 < c"
  shows "a \<le> b div c \<longleftrightarrow> a * c \<le> b"
proof
  assume "a \<le> b div c"
  then have "a * c \<le> (b div c) * c"
    using assms by (simp add: mult_right_mono)
  also have "\<dots> \<le> b"
  proof -
    have "c * (b div c) + b mod c = b"
      by (rule mult_div_mod_eq)
    moreover have "0 \<le> b mod c"
      using assms by (rule pos_mod_sign)
    ultimately have "c * (b div c) \<le> b"
      by linarith
    then show ?thesis
      by (simp add: mult.commute)
  qed
  finally show "a * c \<le> b" .
next
  assume "a * c \<le> b"
  then have "(a * c) div c \<le> b div c"
    using assms by (rule zdiv_mono1)
  then show "a \<le> b div c"
    using assms by simp
qed

lemma range_length_inclusive:
  assumes "0 < step"
  shows "i < range_length start (stop + 1) step \<longleftrightarrow> start + int i * step \<le> stop"
proof (cases "stop < start")
  case True
  have "0 \<le> int i * step"
    using assms by simp
  then have "\<not> start + int i * step \<le> stop"
    using True by linarith
  moreover have "range_length start (stop + 1) step = 0"
    using True assms by (simp add: range_length_def)
  ultimately show ?thesis by simp
next
  case False
  then have len: "range_length start (stop + 1) step = nat ((stop - start) div step + 1)"
    using assms by (simp add: range_length_def)
  have nonneg: "0 \<le> (stop - start) div step"
    using False assms by (simp add: pos_imp_zdiv_nonneg_iff)
  have "i < nat ((stop - start) div step + 1) \<longleftrightarrow> int i \<le> (stop - start) div step"
    using nonneg by linarith
  also have "\<dots> \<longleftrightarrow> int i * step \<le> stop - start"
    using assms by (rule le_div_iff_int)
  also have "\<dots> \<longleftrightarrow> start + int i * step \<le> stop"
    by linarith
  finally show ?thesis
    by (simp only: len)
qed

lemma py_range_inclusive:
  assumes "0 < step"
  shows "\<exists>grid. py_range start (stop + 1) step = Inr grid \<and>
           grid = map (\<lambda>i. start + int i * step) [0 ..< length grid] \<and>
           sorted_wrt (<) grid \<and>
           (\<forall>v. v \<in> set grid \<longleftrightarrow> v \<le> stop \<and> (\<exists>i::nat. v = start + int i * step))"
proof -
  let ?n = "range_length start (stop + 1) step"
  let ?grid = "map (\<lambda>i. start + int i * step) [0 ..< ?n]"
  have r: "py_range start (stop + 1) step = Inr ?grid"
    using assms by (simp add: py_range_def)
  have s: "sorted_wrt (<) ?grid"
    using assms by (simp add: sorted_wrt_map sorted_wrt_iff_nth_less)
  have m: "v \<in> set ?grid \<longleftrightarrow> v \<le> stop \<and> (\<exists>i::nat. v = start + int i * step)" for v
  proof
    assume "v \<in> set ?grid"
    then obtain i where i: "i < ?n" "v = start + int i * step"
      by auto
    from i(1) have "start + int i * step \<le> stop"
      by (simp only: range_length_inclusive [OF assms])
    with i(2) show "v \<le> stop \<and> (\<exists>i::nat. v = start + int i * step)"
      by blast
  next
    assume "v \<le> stop \<and> (\<exists>i::nat. v = start + int i * step)"
    then obtain i :: nat where i: "v = start + int i * step" "start + int i * step \<le> stop"
      by blast
    from i(2) have "i < ?n"
      by (simp only: range_length_inclusive [OF assms])
    with i(1) show "v \<in> set ?grid"
      by (auto intro!: image_eqI [where x=i])
  qed
  have "?grid = map (\<lambda>i. start + int i * step) [0 ..< length ?grid]"
    by simp
  with r s m show ?thesis
    by blast
qed

subsection \<open>Tracking the best sample\<close>

lemma track_all_le: "all_le ss best_value \<Longrightarrow> track ss best_focus best_value = (best_focus, best_value)"
  by (induction ss best_focus best_value rule: track.induct) simp_all

lemma track_first_max:
  assumes "all_less pre v" and "all_le post v" and "best_value < v"
  shows "track (pre @ (f, Some v) # post) best_focus best_value = (f, v)"
  using assms
proof (induction pre best_focus best_value rule: track.induct)
  case (1 best_focus best_value)
  then show ?case by (simp add: track_all_le)
next
  case (2 focus rest best_focus best_value)
  then show ?case by simp
next
  case (3 focus w rest best_focus best_value)
  then show ?case by simp
qed

lemma case_prod_ballD:
  "\<forall>(g, s)\<in>set ss. P g s \<Longrightarrow> (g, s) \<in> set ss \<Longrightarrow> P g s"
  by auto

lemma all_leD:
  assumes "all_le ss b" and "(g, Some w) \<in> set ss"
  shows "w \<le> b"
proof -
  from assms have "case (g, Some w) of (g, s) \<Rightarrow> (case s of None \<Rightarrow> True | Some w \<Rightarrow> w \<le> b)"
    unfolding all_le_def by (rule bspec)
  then show ?thesis by simp
qed

lemma all_lessD:
  assumes "all_less ss b" and "(g, Some w) \<in> set ss"
  shows "w < b"
proof -
  from assms have "case (g, Some w) of (g, s) \<Rightarrow> (case s of None \<Rightarrow> True | Some w \<Rightarrow> w < b)"
    unfolding all_less_def by (rule bspec)
  then show ?thesis by simp
qed

lemma on_grid_iff:
  fixes a b step :: int
  assumes "0 < step"
  shows "(\<exists>i::nat. b = a + int i * step) \<longleftrightarrow> a \<le> b \<and> step dvd b - a"
proof
  assume "\<exists>i::nat. b = a + int i * step"
  then obtain i :: nat where i: "b = a + int i * step"
    by blast
  have "0 \<le> int i * step"
    using assms by simp
  moreover have "step dvd int i * step"
    by simp
  ultimately show "a \<le> b \<and> step dvd b - a"
    using i by simp
next
  assume h: "a \<le> b \<and> step dvd b - a"
  then obtain k where k: "b - a = step * k"
    by (auto simp: dvd_def)
  have "0 \<le> step * k"
    using h k by simp
  then have "0 \<le> k"
    using assms by (simp add: zero_le_mult_iff)
  then have "b = a + int (nat k) * step"
    using k by (simp add: mult.commute)
  then show "\<exists>i::nat. b = a + int i * step"
    by blast
qed

lemma py_range_distinct:
  assumes "py_range start stop step = Inr grid"
  shows "distinct grid"
proof -
  have nz: "step \<noteq> 0"
    using assms by (auto simp: py_range_def split: if_splits)
  then have "inj (\<lambda>i. start + int i * step)"
    by (auto simp: inj_on_def)
  then have "inj_on (\<lambda>i. start + int i * step) (set [0 ..< range_length start stop step])"
    by (rule inj_on_subset) simp
  then have "distinct (map (\<lambda>i. start + int i * step) [0 ..< range_length start stop step])"
    by (simp add: distinct_map)
  then show ?thesis
    using assms nz by (auto simp: py_range_def)
qed

subsection \<open>The autofocus loop\<close>

lemma autofocus_loop_commit:
  assumes "isOpened cap"
    and "py_range min_focus (max_focus + 1) step = Inr grid"
    and "track (sweep_samples grid (pending cap)) min_focus (- 1) = (f, v)"
  shows "\<exists>self1 cap1.
           focus_sweep self cap grid min_focus (- 1) = Inr (f, v, self1, cap1) \<and>
           autofocus_loop self cap min_focus max_focus step = set_focus self1 f \<and>
           set_focus self1 f = Inr (after self (sweep_cmds grid @ focus_cmds f))"
proof -
  let ?self1 = "after self (sweep_cmds grid)"
  let ?cap1 = "cap\<lparr>pending := drop (length grid) (pending cap)\<rparr>"
  have sw: "focus_sweep self cap grid min_focus (- 1) = Inr (f, v, ?self1, ?cap1)"
    by (simp add: focus_sweep_track assms(3))
  have "autofocus_loop self cap min_focus max_focus step = set_focus ?self1 f"
    using assms(1) by (simp add: autofocus_loop_def assms(2) sw)
  moreover have "set_focus ?self1 f = Inr (after self (sweep_cmds grid @ focus_cmds f))"
    by (simp add: set_focus_sends after_append)
  ultimately show ?thesis
    using sw by blast
qed

lemma autofocus_loop_closed:
  assumes "channel_closed self"
  shows "autofocus_loop self cap min_focus max_focus step =
           (if isOpened cap \<and> step = 0 then Inl ValueError else Inr self)"
proof (cases "isOpened cap \<and> step \<noteq> 0")
  case True
  then obtain grid where g: "py_range min_focus (max_focus + 1) step = Inr grid"
    by (simp add: py_range_def)
  obtain f v where "track (sweep_samples grid (pending cap)) min_focus (- 1) = (f, v)"
    by (cases "track (sweep_samples grid (pending cap)) min_focus (- 1)")
  from autofocus_loop_commit [OF _ g this, of self] True
  have "autofocus_loop self cap min_focus max_focus step =
          Inr (after self (sweep_cmds grid @ focus_cmds f))"
    by auto
  then show ?thesis
    using True assms by (simp add: after_closed)
next
  case False
  then show ?thesis
    by (auto simp: autofocus_loop_def py_range_def)
qed

lemma call_closed:
  assumes "channel_closed self"
  shows "call self op1 = (if zero_step op1 then Inl ValueError else Inr self)"
  using assms
  by (cases op1)
    (simp_all add: send_after wake_up_after autofocus_after set_zoom_after set_focus_after
      ir_on_after ir_off_after set_mode_day_after set_mode_night_after pan_after tilt_after
      after_closed autofocus_loop_closed)

lemma call_all_closed:
  assumes "channel_closed self" and "call_all self ops = Inr self'"
  shows "self' = self"
  using assms
proof (induction ops)
  case Nil
  then show ?case by simp
next
  case (Cons op1 ops)
  then show ?case
    by (cases "zero_step op1") (simp_all add: call_closed)
qed

subsection \<open>Truncation and the control law\<close>

lemma py_int_mono: "x \<le> y \<Longrightarrow> py_int x \<le> py_int y"
proof -
  assume le: "x \<le> y"
  show ?thesis
  proof (cases "0 \<le> x")
    case True
    then have "0 \<le> y" using le by simp
    with True le show ?thesis
      by (simp add: py_int_def floor_mono)
  next
    case False
    show ?thesis
    proof (cases "0 \<le> y")
      case True
      have "\<lceil>x\<rceil> \<le> 0"
        using False by (simp add: ceiling_le_iff)
      moreover have "0 \<le> \<lfloor>y\<rfloor>"
        using True by simp
      ultimately have "\<lceil>x\<rceil> \<le> \<lfloor>y\<rfloor>"
        by (rule order_trans)
      then show ?thesis
        using False True by (simp add: py_int_def)
    next
      case y: False
      with False le show ?thesis
        by (simp add: py_int_def ceiling_mono)
    qed
  qed
qed

lemma axis_val_trunc: "axis_val d = sgn d * (\<bar>d\<bar> div 10)"
proof (cases "0 \<le> d")
  case True
  have "of_int d * Kp = (of_int d / of_int 10 :: rat)"
    by (simp add: Kp_def)
  then have "\<lfloor>of_int d * Kp\<rfloor> = d div 10"
    by (simp only: floor_divide_of_int_eq)
  moreover have "0 \<le> (of_int d * Kp :: rat)"
    using True by (simp add: Kp_def)
  ultimately have "axis_val d = d div 10"
    by (simp add: axis_val_def py_int_def)
  then show ?thesis
    using True by (cases "d = 0") (simp_all add: sgn_if)
next
  case False
  have "- (of_int d * Kp) = (of_int (- d) / of_int 10 :: rat)"
    by (simp add: Kp_def)
  then have "\<lfloor>- (of_int d * Kp)\<rfloor> = (- d) div 10"
    by (simp only: floor_divide_of_int_eq)
  then have "\<lceil>of_int d * Kp\<rceil> = - ((- d) div 10)"
    by (simp add: ceiling_def)
  moreover have "\<not> 0 \<le> (of_int d * Kp :: rat)"
    using False by (simp add: Kp_def)
  ultimately have "axis_val d = - ((- d) div 10)"
    by (simp add: axis_val_def py_int_def)
  then show ?thesis
    using False by (simp add: sgn_if)
qed

lemma pan_sends: "pan self v = Inr (after self (pan_cmds v))"
  by (simp add: pan_after pan_cmds_def)

lemma tilt_sends: "tilt self v = Inr (after self (tilt_cmds v))"
  by (simp add: tilt_after tilt_cmds_def)

lemma set_zoom_sends: "set_zoom self v = Inr (after self (zoom_cmds v))"
  by (simp add: set_zoom_after zoom_cmds_def)

lemma axis_val_deadband: "\<bar>axis_val d\<bar> > 1 \<longleftrightarrow> \<bar>d\<bar> \<ge> 20"
  unfolding axis_val_trunc by (auto simp: sgn_if abs_if)

lemma track_person_after:
  assumes "xyxy person = (x1, y1, x2, y2)"
    and "dx = py_int ((x1 + x2) / 2) - frame_width div 2"
    and "dy = py_int ((y1 + y2) / 2) - frame_height div 2"
  shows "track_person controller frame_width frame_height person =
           Inr (after controller
                  ((if \<bar>axis_val dx\<bar> > 1 then pan_cmds (axis_val dx) else []) @
                   (if \<bar>axis_val dy\<bar> > 1 then tilt_cmds (axis_val dy) else []) @
                   zoom_cmds (zoom_value frame_width (x2 - x1))))"
  unfolding track_person_def assms(1) Let_def prod.case assms(2,3) [symmetric]
  by (simp add: pan_sends tilt_sends set_zoom_sends after_append)

section \<open>The control law of the follower\<close>

text \<open>
  Claim C1, as amended. For a frame with a selected person (the first box of class 0
  among the detector's), the controller computes the
  pan and tilt values by \<^verbatim>\<open>int(d * 0.1)\<close>, which truncates towards zero
  (\<open>sgn d * (\<bar>d\<bar> div 10)\<close>) and does not round, from the pixel error \<open>(dx, dy)\<close>
  between the centre of the detection and the centre of the frame. It issues the pan
  commands if and only if the pan value exceeds 1 in absolute value, the tilt commands
  likewise, each carrying exactly the computed value, and then the zoom commands.
\<close>
theorem process_frame_truncates:
  assumes "find_person boxes = Some person"
    and "xyxy person = (x1, y1, x2, y2)"
    and "dx = py_int ((x1 + x2) / 2) - frame_width div 2"
    and "dy = py_int ((y1 + y2) / 2) - frame_height div 2"
  shows "axis_val dx = sgn dx * (\<bar>dx\<bar> div 10) \<and>
         axis_val dy = sgn dy * (\<bar>dy\<bar> div 10) \<and>
         (\<bar>axis_val dx\<bar> > 1 \<longleftrightarrow> \<bar>dx\<bar> \<ge> 20) \<and>
         (\<bar>axis_val dy\<bar> > 1 \<longleftrightarrow> \<bar>dy\<bar> \<ge> 20) \<and>
         process_frame controller frame_width frame_height boxes =
           Inr (after controller
                  ((if \<bar>axis_val dx\<bar> > 1 then pan_cmds (axis_val dx) else []) @
                   (if \<bar>axis_val dy\<bar> > 1 then tilt_cmds (axis_val dy) else []) @
                   zoom_cmds (zoom_value frame_width (x2 - x1))))"
proof -
  have "process_frame controller frame_width frame_height boxes =
          track_person controller frame_width frame_height person"
    by (simp add: process_frame_def assms(1))
  note this [unfolded track_person_after [OF assms(2-4), of controller]]
  moreover have "axis_val dx = sgn dx * (\<bar>dx\<bar> div 10)" "axis_val dy = sgn dy * (\<bar>dy\<bar> div 10)"
    by (rule axis_val_trunc)+
  moreover have "\<bar>axis_val dx\<bar> > 1 \<longleftrightarrow> \<bar>dx\<bar> \<ge> 20" "\<bar>axis_val dy\<bar> > 1 \<longleftrightarrow> \<bar>dy\<bar> \<ge> 20"
    by (rule axis_val_deadband)+
  ultimately show ?thesis
    by blast
qed

theorem process_frame_truncates_witness:
  "axis_val (- 26) = - 2 \<and> axis_val 20 = 2 \<and>
   process_frame open_controller 1280 720
       [\<lparr>cls = 2, xyxy = (0, 0, 50, 50)\<rparr>, \<lparr>cls = 0, xyxy = (564, 330, 664, 430)\<rparr>] =
     Inr (after open_controller (pan_cmds (- 2) @ tilt_cmds 2 @ zoom_cmds 15900))"
proof -
  have f: "find_person [\<lparr>cls = 2, xyxy = (0, 0, 50, 50)\<rparr>, \<lparr>cls = 0, xyxy = (564, 330, 664, 430)\<rparr>] =
             Some \<lparr>cls = 0, xyxy = (564, 330, 664, 430)\<rparr>"
    by code_simp
  have p: "xyxy \<lparr>cls = 0, xyxy = (564, 330, 664, 430)\<rparr> = (564, 330, 664, 430)"
    by simp
  have dx: "- 26 = py_int ((564 + 664) / 2) - 1280 div 2"
    by code_simp
  have dy: "20 = py_int ((330 + 430) / 2) - 720 div 2"
    by code_simp
  have z: "zoom_value 1280 (664 - 564) = 15900"
    by code_simp
  have a: "axis_val (- 26) = - 2" "axis_val 20 = 2"
    by code_simp+
  from process_frame_truncates [OF f p dx dy, of open_controller] show ?thesis
    by (simp only: a z) simp
qed

text \<open>
  Claim C1 as the specification words it, with \<open>round\<close>, fails: for a frame of 1280 by
  720 and the box (609, 330)-(709, 430) the error is \<open>dx = 19\<close>, \<open>dy = 20\<close>. Rounding
  1.9 gives 2, beyond the dead band, so a pan by 2 would be due; the code truncates to 1
  and sends the tilt and zoom commands only, which is not what the claimed law, with
  \<open>spec_axis_val\<close> for \<open>axis_val\<close>, would send.
\<close>
theorem process_frame_round_counterexample:
  "spec_axis_val 19 = 2 \<and> axis_val 19 = 1 \<and>
   process_frame open_controller 1280 720 [\<lparr>cls = 0, xyxy = (609, 330, 709, 430)\<rparr>] =
     Inr (after open_controller [''G0 Y2'', ''M0 Y'', ''G0 A15900'', ''M0 A'']) \<and>
   process_frame open_controller 1280 720 [\<lparr>cls = 0, xyxy = (609, 330, 709, 430)\<rparr>] \<noteq>
     Inr (after open_controller
            ((if \<bar>spec_axis_val 19\<bar> > 1 then pan_cmds (spec_axis_val 19) else []) @
             (if \<bar>spec_axis_val 20\<bar> > 1 then tilt_cmds (spec_axis_val 20) else []) @
             zoom_cmds (zoom_value 1280 (709 - 609))))"
proof -
  have f: "process_frame open_controller 1280 720 [\<lparr>cls = 0, xyxy = (609, 330, 709, 430)\<rparr>] =
             track_person open_controller 1280 720 \<lparr>cls = 0, xyxy = (609, 330, 709, 430)\<rparr>"
    by (simp add: process_frame_def find_person_def py_int_def)
  have p: "xyxy \<lparr>cls = 0, xyxy = (609, 330, 709, 430)\<rparr> = (609, 330, 709, 430)"
    by simp
  have dx: "19 = py_int ((609 + 709) / 2) - 1280 div 2"
    by code_simp
  have dy: "20 = py_int ((330 + 430) / 2) - 720 div 2"
    by code_simp
  have z: "zoom_value 1280 (709 - 609) = 15900"
    by code_simp
  have a: "axis_val 19 = 1" "axis_val 20 = 2"
    by code_simp+
  have s: "spec_axis_val 19 = 2" "spec_axis_val 20 = 2"
    by code_simp+
  have c: "tilt_cmds 2 @ zoom_cmds 15900 = [''G0 Y2'', ''M0 Y'', ''G0 A15900'', ''M0 A'']"
    by (simp add: tilt_cmds_def zoom_cmds_def str_int_def str_nat.simps digit_char_def)
  have c': "pan_cmds 2 @ tilt_cmds 2 @ zoom_cmds 15900 =
              [''G0 X2'', ''M0 X'', ''G0 Y2'', ''M0 Y'', ''G0 A15900'', ''M0 A'']"
    by (simp add: pan_cmds_def tilt_cmds_def zoom_cmds_def str_int_def str_nat.simps digit_char_def)
  have "track_person open_controller 1280 720 \<lparr>cls = 0, xyxy = (609, 330, 709, 430)\<rparr> =
          Inr (after open_controller (tilt_cmds 2 @ zoom_cmds 15900))"
    using track_person_after [OF p dx dy, of open_controller] by (simp only: a z) simp
  then have t: "track_person open_controller 1280 720 \<lparr>cls = 0, xyxy = (609, 330, 709, 430)\<rparr> =
          Inr (after open_controller [''G0 Y2'', ''M0 Y'', ''G0 A15900'', ''M0 A''])"
    by (simp only: c)
  have "length (concat (map full_cmd [''G0 Y2'', ''M0 Y'', ''G0 A15900'', ''M0 A''])) \<noteq>
        length (concat (map full_cmd [''G0 X2'', ''M0 X'', ''G0 Y2'', ''M0 Y'', ''G0 A15900'', ''M0 A'']))"
    by code_simp
  then have "after open_controller [''G0 Y2'', ''M0 Y'', ''G0 A15900'', ''M0 A''] \<noteq>
             after open_controller [''G0 X2'', ''M0 X'', ''G0 Y2'', ''M0 Y'', ''G0 A15900'', ''M0 A'']"
    by (metis after_open_controller_wire option.inject)
  then have n: "track_person open_controller 1280 720 \<lparr>cls = 0, xyxy = (609, 330, 709, 430)\<rparr> \<noteq>
     Inr (after open_controller (pan_cmds 2 @ tilt_cmds 2 @ zoom_cmds 15900))"
    by (simp only: t c' sum.inject simp_thms)
  have e: "(if \<bar>spec_axis_val 19\<bar> > 1 then pan_cmds (spec_axis_val 19) else []) @
           (if \<bar>spec_axis_val 20\<bar> > 1 then tilt_cmds (spec_axis_val 20) else []) @
           zoom_cmds (zoom_value 1280 (709 - 609)) =
           pan_cmds 2 @ tilt_cmds 2 @ zoom_cmds 15900"
    by (simp only: s z) simp
  from n have "track_person open_controller 1280 720 \<lparr>cls = 0, xyxy = (609, 330, 709, 430)\<rparr> \<noteq>
     Inr (after open_controller
            ((if \<bar>spec_axis_val 19\<bar> > 1 then pan_cmds (spec_axis_val 19) else []) @
             (if \<bar>spec_axis_val 20\<bar> > 1 then tilt_cmds (spec_axis_val 20) else []) @
             zoom_cmds (zoom_value 1280 (709 - 609))))"
    unfolding e .
  with s(1) a(1) t show ?thesis
    unfolding f by (intro conjI)
qed

text \<open>
  Claim C8. For a fixed frame width the zoom value
  \<^verbatim>\<open>int(10000 + (frame_width - bbox_width) * 5)\<close> does not increase with the width
  of the bounding box: a box at least as wide gets a zoom value at most as large.
\<close>
theorem zoom_value_antimono:
  "w1 \<le> w2 \<Longrightarrow> zoom_value frame_width w2 \<le> zoom_value frame_width w1"
  unfolding zoom_value_def by (rule py_int_mono) simp

theorem zoom_value_antimono_witness:
  "zoom_value 1280 200 \<le> zoom_value 1280 100"
proof -
  have "(100 :: rat) \<le> 200" by simp
  then show ?thesis by (rule zoom_value_antimono)
qed

section \<open>The autofocus sweep\<close>

text \<open>
  Claim C2. For every \<open>min_focus\<close>, \<open>max_focus\<close> and positive \<open>step\<close>, the sweep
  visits exactly the focus values \<open>min_focus\<close>, \<open>min_focus + step\<close>, ... that do not
  exceed \<open>max_focus\<close>, the bound included, in increasing order: the loop sends the
  set-focus commands of these values in this order (and then those of the best one), the
  values are \<open>min_focus + i * step\<close> for \<open>i\<close> below their number, strictly increasing,
  and a value is among them exactly when it is on this grid and at most \<open>max_focus\<close>.
  So \<open>max_focus\<close> itself is visited exactly when it lies on the grid.
\<close>
theorem autofocus_sweep_grid:
  assumes "0 < step" and "isOpened cap"
  shows "\<exists>grid best.
           py_range min_focus (max_focus + 1) step = Inr grid \<and>
           autofocus_loop self cap min_focus max_focus step =
             Inr (after self (sweep_cmds grid @ focus_cmds best)) \<and>
           grid = map (\<lambda>i. min_focus + int i * step) [0 ..< length grid] \<and>
           sorted_wrt (<) grid \<and>
           (\<forall>v. v \<in> set grid \<longleftrightarrow> v \<le> max_focus \<and> (\<exists>i::nat. v = min_focus + int i * step)) \<and>
           (max_focus \<in> set grid \<longleftrightarrow> min_focus \<le> max_focus \<and> step dvd max_focus - min_focus)"
proof -
  obtain grid where g: "py_range min_focus (max_focus + 1) step = Inr grid"
    "grid = map (\<lambda>i. min_focus + int i * step) [0 ..< length grid]"
    "sorted_wrt (<) grid"
    "\<forall>v. v \<in> set grid \<longleftrightarrow> v \<le> max_focus \<and> (\<exists>i::nat. v = min_focus + int i * step)"
    using py_range_inclusive [OF assms(1), of min_focus max_focus] by blast
  obtain f v where "track (sweep_samples grid (pending cap)) min_focus (- 1) = (f, v)"
    by (cases "track (sweep_samples grid (pending cap)) min_focus (- 1)")
  from autofocus_loop_commit [OF assms(2) g(1) this, of self]
  have "autofocus_loop self cap min_focus max_focus step =
          Inr (after self (sweep_cmds grid @ focus_cmds f))"
    by auto
  moreover have "max_focus \<in> set grid \<longleftrightarrow> min_focus \<le> max_focus \<and> step dvd max_focus - min_focus"
    using g(4) by (simp add: on_grid_iff [OF assms(1)])
  ultimately show ?thesis
    using g by blast
qed

theorem autofocus_sweep_grid_witness:
  "\<exists>best. autofocus_loop open_controller demo_capture 0 7 2 =
      Inr (after open_controller (sweep_cmds [0, 2, 4, 6] @ focus_cmds best))"
proof -
  have "(0::int) < 2" by simp
  moreover have "isOpened demo_capture" by (simp add: demo_capture_def)
  ultimately obtain grid best where
    g: "py_range 0 (7 + 1) 2 = Inr grid" and
    a: "autofocus_loop open_controller demo_capture 0 7 2 =
         Inr (after open_controller (sweep_cmds grid @ focus_cmds best))"
    using autofocus_sweep_grid [of 2 demo_capture 0 7 open_controller] by blast
  have "py_range 0 (7 + 1) 2 = Inr [0, 2, 4, 6]"
    by code_simp
  with g have "grid = [0, 2, 4, 6]" by simp
  with a show ?thesis by blast
qed

text \<open>
  Claim C4. If the sharpness over the swept grid has a unique maximum \<open>v\<close>, at focus
  \<open>f\<close>, and every capture succeeds (each other sample has a sharpness, strictly below
  \<open>v\<close>), the loop ends with \<open>f\<close> as best focus and its final action is
  \<open>set_focus f\<close>.
\<close>
theorem autofocus_unique_maximum:
  assumes "isOpened cap"
    and "py_range min_focus (max_focus + 1) step = Inr grid"
    and "(f, Some v) \<in> set (sweep_samples grid (pending cap))"
    and "\<forall>(g, s)\<in>set (sweep_samples grid (pending cap)).
           g \<noteq> f \<longrightarrow> (case s of None \<Rightarrow> False | Some w \<Rightarrow> w < v)"
  shows "\<exists>self1 cap1.
           focus_sweep self cap grid min_focus (- 1) = Inr (f, v, self1, cap1) \<and>
           autofocus_loop self cap min_focus max_focus step = set_focus self1 f \<and>
           set_focus self1 f = Inr (after self (sweep_cmds grid @ focus_cmds f))"
proof -
  let ?ss = "sweep_samples grid (pending cap)"
  have v0: "0 \<le> v"
    using assms(3) by (rule sweep_samples_nonneg)
  have other: "w < v" if "(g, Some w) \<in> set ?ss" "g \<noteq> f" for g w
    using case_prod_ballD [OF assms(4) that(1)] that(2) by simp
  have "track ?ss min_focus (- 1) = (f, v)"
    using track_cases [of ?ss min_focus "- 1"]
  proof (elim disjE exE conjE)
    assume "all_le ?ss (- 1)"
    then have "v \<le> - 1"
      using assms(3) by (rule all_leD)
    with v0 show ?thesis by simp
  next
    fix pre post bf bv
    assume t: "track ?ss min_focus (- 1) = (bf, bv)"
      and d: "?ss = pre @ (bf, Some bv) # post"
      and pre: "all_less pre bv" and post: "all_le post bv"
    have mid: "(bf, Some bv) \<in> set ?ss"
      by (simp add: d)
    have "bf = f"
    proof (rule ccontr)
      assume ne: "bf \<noteq> f"
      then have less: "bv < v"
        using other [OF mid] by simp
      from assms(3) have "(f, Some v) \<in> set pre \<or> (f, Some v) \<in> set post"
        using ne by (auto simp: d)
      then have "v \<le> bv"
        using all_lessD [OF pre] all_leD [OF post] by fastforce
      with less show False by simp
    qed
    moreover have "bv = v"
    proof -
      have "distinct (map fst ?ss)"
        using py_range_distinct [OF assms(2)] by (simp add: map_fst_sweep_samples)
      moreover have "(f, Some bv) \<in> set ?ss"
        using mid \<open>bf = f\<close> by simp
      ultimately have "Some bv = Some v"
        using assms(3) by (rule eq_key_imp_eq_value)
      then show ?thesis by simp
    qed
    ultimately show ?thesis
      using t by simp
  qed
  with assms(1,2) show ?thesis
    by (rule autofocus_loop_commit)
qed

theorem autofocus_unique_maximum_witness:
  "\<exists>self1 cap1.
     focus_sweep open_controller demo_capture [0, 2, 4, 6] 0 (- 1) = Inr (4, 8 / 3, self1, cap1) \<and>
     autofocus_loop open_controller demo_capture 0 7 2 = set_focus self1 4 \<and>
     set_focus self1 4 = Inr (after open_controller (sweep_cmds [0, 2, 4, 6] @ focus_cmds 4))"
proof (rule autofocus_unique_maximum)
  show "isOpened demo_capture"
    by (simp add: demo_capture_def)
  show "py_range 0 (7 + 1) 2 = Inr [0, 2, 4, 6]"
    by code_simp
  show "(4, Some (8 / 3)) \<in> set (sweep_samples [0, 2, 4, 6] (pending demo_capture))"
    by code_simp
  show "\<forall>(g, s)\<in>set (sweep_samples [0, 2, 4, 6] (pending demo_capture)).
          g \<noteq> 4 \<longrightarrow> (case s of None \<Rightarrow> False | Some w \<Rightarrow> w < 8 / 3)"
    by code_simp
qed

text \<open>
  Claim C5. If several swept focus values attain the maximal sharpness \<open>v\<close>, the sweep
  commits the earliest of them: when \<open>f\<close> is the first sample to reach \<open>v\<close> (all
  earlier samples are strictly below \<open>v\<close>, no later one is above), the loop ends with
  \<open>f\<close> as best focus and commits it, since a later equal value does not replace it.
  With a positive step the earliest is also the lowest focus value attaining \<open>v\<close>.
\<close>
theorem autofocus_tie_break:
  assumes "isOpened cap"
    and "py_range min_focus (max_focus + 1) step = Inr grid"
    and "sweep_samples grid (pending cap) = pre @ (f, Some v) # post"
    and "all_less pre v"
    and "all_le post v"
  shows "(\<exists>self1 cap1.
            focus_sweep self cap grid min_focus (- 1) = Inr (f, v, self1, cap1) \<and>
            autofocus_loop self cap min_focus max_focus step = set_focus self1 f \<and>
            set_focus self1 f = Inr (after self (sweep_cmds grid @ focus_cmds f))) \<and>
         (0 < step \<longrightarrow> (\<forall>g. (g, Some v) \<in> set (sweep_samples grid (pending cap)) \<longrightarrow> f \<le> g))"
proof
  have "(f, Some v) \<in> set (sweep_samples grid (pending cap))"
    by (simp add: assms(3))
  then have "0 \<le> v"
    by (rule sweep_samples_nonneg)
  then have "- 1 < v"
    by simp
  with assms(4,5) have "track (pre @ (f, Some v) # post) min_focus (- 1) = (f, v)"
    by (rule track_first_max)
  then have "track (sweep_samples grid (pending cap)) min_focus (- 1) = (f, v)"
    by (simp only: assms(3))
  with assms(1,2) show "\<exists>self1 cap1.
      focus_sweep self cap grid min_focus (- 1) = Inr (f, v, self1, cap1) \<and>
      autofocus_loop self cap min_focus max_focus step = set_focus self1 f \<and>
      set_focus self1 f = Inr (after self (sweep_cmds grid @ focus_cmds f))"
    by (rule autofocus_loop_commit)
next
  show "0 < step \<longrightarrow> (\<forall>g. (g, Some v) \<in> set (sweep_samples grid (pending cap)) \<longrightarrow> f \<le> g)"
  proof (intro impI allI)
    fix g
    assume st: "0 < step" and g: "(g, Some v) \<in> set (sweep_samples grid (pending cap))"
    have "sorted_wrt (<) grid"
      using py_range_inclusive [OF st, of min_focus max_focus] assms(2) by auto
    then have "sorted_wrt (<) (map fst (pre @ (f, Some v) # post))"
      by (simp only: assms(3) [symmetric] map_fst_sweep_samples)
    then have later: "\<forall>x\<in>set post. f < fst x"
      by (simp add: sorted_wrt_append)
    have "(g, Some v) \<notin> set pre"
      using all_lessD [OF assms(4), of g v] by auto
    with g have "g = f \<or> (g, Some v) \<in> set post"
      by (auto simp: assms(3))
    with later show "f \<le> g"
      by fastforce
  qed
qed

theorem autofocus_tie_break_witness:
  "(\<exists>self1 cap1.
      focus_sweep open_controller tie_capture [0, 2, 4, 6] 0 (- 1) = Inr (2, 2, self1, cap1) \<and>
      autofocus_loop open_controller tie_capture 0 7 2 = set_focus self1 2 \<and>
      set_focus self1 2 = Inr (after open_controller (sweep_cmds [0, 2, 4, 6] @ focus_cmds 2))) \<and>
   (6, Some 2) \<in> set (sweep_samples [0, 2, 4, 6] (pending tie_capture)) \<and>
   (2 :: int) \<le> 6"
proof -
  have 1: "isOpened tie_capture"
    by (simp add: tie_capture_def)
  have 2: "py_range 0 (7 + 1) 2 = Inr [0, 2, 4, 6]"
    by code_simp
  have 3: "sweep_samples [0, 2, 4, 6] (pending tie_capture) =
             [(0, Some (2 / 3))] @ (2, Some 2) # [(4, None), (6, Some 2)]"
    by code_simp
  have 4: "all_less [(0, Some (2 / 3))] 2"
    by code_simp
  have 5: "all_le [(4, None), (6, Some 2)] 2"
    by code_simp
  have 6: "(6, Some 2) \<in> set (sweep_samples [0, 2, 4, 6] (pending tie_capture))"
    by code_simp
  from autofocus_tie_break [OF 1 2 3 4 5, of open_controller] 6 show ?thesis
    by simp
qed

text \<open>
  Claim C6. If every capture of the sweep fails, the best focus remains \<open>min_focus\<close>
  with the sentinel score \<open>-1\<close>, and the loop still commits \<open>min_focus\<close>.
\<close>
theorem autofocus_all_captures_fail:
  assumes "isOpened cap"
    and "py_range min_focus (max_focus + 1) step = Inr grid"
    and "\<forall>(g, s)\<in>set (sweep_samples grid (pending cap)). s = None"
  shows "\<exists>self1 cap1.
           focus_sweep self cap grid min_focus (- 1) = Inr (min_focus, - 1, self1, cap1) \<and>
           autofocus_loop self cap min_focus max_focus step = set_focus self1 min_focus \<and>
           set_focus self1 min_focus = Inr (after self (sweep_cmds grid @ focus_cmds min_focus))"
proof -
  have "all_le (sweep_samples grid (pending cap)) (- 1)"
    using assms(3) by (auto simp: all_le_def)
  then have "track (sweep_samples grid (pending cap)) min_focus (- 1) = (min_focus, - 1)"
    by (rule track_all_le)
  with assms(1,2) show ?thesis
    by (rule autofocus_loop_commit)
qed

theorem autofocus_all_captures_fail_witness:
  "\<exists>self1 cap1.
     focus_sweep open_controller failing_capture [0, 2, 4, 6] 0 (- 1) = Inr (0, - 1, self1, cap1) \<and>
     autofocus_loop open_controller failing_capture 0 7 2 = set_focus self1 0 \<and>
     set_focus self1 0 = Inr (after open_controller (sweep_cmds [0, 2, 4, 6] @ focus_cmds 0))"
proof (rule autofocus_all_captures_fail)
  show "isOpened failing_capture"
    by (simp add: failing_capture_def)
  show "py_range 0 (7 + 1) 2 = Inr [0, 2, 4, 6]"
    by code_simp
  show "\<forall>(g, s)\<in>set (sweep_samples [0, 2, 4, 6] (pending failing_capture)). s = None"
    by code_simp
qed

text \<open>
  Claim C10. If at least one capture succeeds, the committed focus is a value of the
  swept grid whose measured sharpness is maximal among the successful samples; every
  measured sharpness is a variance, hence at least 0 and above the sentinel \<open>-1\<close>, so
  the sentinel does not survive a successful capture.
\<close>
theorem autofocus_commits_maximum:
  assumes "isOpened cap"
    and "py_range min_focus (max_focus + 1) step = Inr grid"
    and "(g0, Some w0) \<in> set (sweep_samples grid (pending cap))"
  shows "\<exists>f v self1 cap1.
           focus_sweep self cap grid min_focus (- 1) = Inr (f, v, self1, cap1) \<and>
           autofocus_loop self cap min_focus max_focus step = set_focus self1 f \<and>
           set_focus self1 f = Inr (after self (sweep_cmds grid @ focus_cmds f)) \<and>
           f \<in> set grid \<and>
           (f, Some v) \<in> set (sweep_samples grid (pending cap)) \<and>
           all_le (sweep_samples grid (pending cap)) v \<and>
           - 1 < v \<and> - 1 < w0"
proof -
  let ?ss = "sweep_samples grid (pending cap)"
  have w0: "0 \<le> w0"
    using assms(3) by (rule sweep_samples_nonneg)
  from track_cases [of ?ss min_focus "- 1"]
  obtain pre post f v where t: "track ?ss min_focus (- 1) = (f, v)"
    and d: "?ss = pre @ (f, Some v) # post"
    and lt: "- 1 < v" and pre: "all_less pre v" and post: "all_le post v"
  proof (elim disjE exE conjE)
    assume "all_le ?ss (- 1)"
    then have "w0 \<le> - 1"
      using assms(3) by (rule all_leD)
    with w0 show ?thesis by simp
  qed blast
  have mem: "(f, Some v) \<in> set ?ss"
    by (simp add: d)
  then have "f \<in> fst ` set ?ss"
    by force
  then have "f \<in> set (map fst ?ss)"
    by simp
  then have fg: "f \<in> set grid"
    by (simp only: map_fst_sweep_samples)
  have "all_le pre v"
    using pre by (auto simp: all_le_def all_less_def split: option.splits)
  with post have le: "all_le ?ss v"
    by (auto simp: d all_le_def)
  from autofocus_loop_commit [OF assms(1,2) t, of self] fg mem le lt w0 show ?thesis
    by auto
qed

theorem autofocus_commits_maximum_witness:
  "\<exists>self1 cap1.
     focus_sweep open_controller uniform_capture [0, 2, 4, 6] 0 (- 1) = Inr (2, 0, self1, cap1) \<and>
     autofocus_loop open_controller uniform_capture 0 7 2 = set_focus self1 2 \<and>
     set_focus self1 2 = Inr (after open_controller (sweep_cmds [0, 2, 4, 6] @ focus_cmds 2))"
proof -
  have 1: "isOpened uniform_capture"
    by (simp add: uniform_capture_def)
  have 2: "py_range 0 (7 + 1) 2 = Inr [0, 2, 4, 6]"
    by code_simp
  have 3: "sweep_samples [0, 2, 4, 6] (pending uniform_capture) =
             [(0, None), (2, Some 0), (4, None), (6, None)]"
    by code_simp
  have 4: "(2, Some 0) \<in> set (sweep_samples [0, 2, 4, 6] (pending uniform_capture))"
    by (simp add: 3)
  from autofocus_commits_maximum [OF 1 2 4, of open_controller]
  obtain f v self1 cap1 where
    r: "focus_sweep open_controller uniform_capture [0, 2, 4, 6] 0 (- 1) = Inr (f, v, self1, cap1)"
      "autofocus_loop open_controller uniform_capture 0 7 2 = set_focus self1 f"
      "set_focus self1 f = Inr (after open_controller (sweep_cmds [0, 2, 4, 6] @ focus_cmds f))"
    and m: "(f, Some v) \<in> set (sweep_samples [0, 2, 4, 6] (pending uniform_capture))"
    by blast
  from m have "f = 2 \<and> v = 0"
    by (simp add: 3)
  with r show ?thesis
    by blast
qed

section \<open>The command channel\<close>

text \<open>
  Claim C3. Once the command channel is closed (the serial open at construction failed,
  which leaves \<^verbatim>\<open>self.serial = None\<close>), it never becomes open again, and every
  later send returns \<open>None\<close> at once, writes no byte to the device and does not raise:
  \<open>send_command\<close> returns \<open>Inr (None, self)\<close> with the controller unchanged; every
  method of the controller returns the controller unchanged, so that after any sequence
  of calls that completes the controller is the same and still closed. The only call that
  raises is an autofocus sweep with step 0, which fails in \<^verbatim>\<open>range()\<close> before any
  send.
\<close>
theorem closed_channel_stays_closed:
  assumes "channel_closed self"
  shows "send_command self cmd = Inr (None, self) \<and>
         (\<forall>op1. call self op1 = (if zero_step op1 then Inl ValueError else Inr self)) \<and>
         (\<forall>ops self'. call_all self ops = Inr self' \<longrightarrow> self' = self \<and> channel_closed self') \<and>
         channel_closed (init p b (Inl exc))"
proof -
  have "channel_closed (init p b (Inl exc))"
    by (simp add: init_def channel_closed_def)
  then show ?thesis
    using assms send_command_closed call_closed call_all_closed by blast
qed

theorem closed_channel_stays_closed_witness:
  "channel_closed closed_controller \<and>
   send_command closed_controller ''M8'' = Inr (None, closed_controller) \<and>
   call closed_controller (Pan 5) = Inr closed_controller \<and>
   call_all closed_controller [WakeUp, SetModeDay, SetFocus 2000] = Inr closed_controller"
proof -
  have c: "channel_closed closed_controller"
    by (simp add: closed_controller_def init_def channel_closed_def)
  note t = closed_channel_stays_closed [OF c, of "''M8''" "''/dev/ttyACM0''" 115200 PortNotOpenError]
  have "call closed_controller (Pan 5) = Inr closed_controller"
    using t by (metis zero_step.simps(11))
  moreover have "call_all closed_controller [WakeUp, SetModeDay, SetFocus 2000] = Inr closed_controller"
    by code_simp
  ultimately show ?thesis
    using c t by blast
qed

text \<open>
  Claim C7. For every command string sent on an open channel, the bytes written end with
  the line terminator exactly once, even when the caller's text already ends with white
  space or with the terminator itself: the bytes added to the wire are a body followed by
  CR LF, and the body does not itself end with CR LF.
\<close>
theorem send_command_terminated_once:
  assumes "serial self = Some ser" and "is_open ser"
  shows "\<exists>response ser' body.
           send_command self cmd = Inr (Some response, self\<lparr>serial := Some ser'\<rparr>) \<and>
           wire ser' = wire ser @ body @ [13, 10] \<and>
           (\<forall>pre. body \<noteq> pre @ [13, 10])"
proof -
  let ?ser' = "transmit ser [cmd]"
  have "wire ?ser' = wire ser @ encode_utf8 (strip cmd) @ [13, 10]"
    by (simp add: wire_transmit full_cmd_bytes)
  moreover have "\<forall>pre. encode_utf8 (strip cmd) \<noteq> pre @ [13, 10]"
    by (simp add: stripped_no_terminator)
  ultimately show ?thesis
    using send_command_open [OF assms, of cmd] by blast
qed

theorem send_command_terminated_once_witness:
  "\<exists>response ser' body.
     send_command open_controller (''M8 '' @ CRLF) =
       Inr (Some response, open_controller\<lparr>serial := Some ser'\<rparr>) \<and>
     wire ser' = wire open_port @ body @ [13, 10] \<and>
     (\<forall>pre. body \<noteq> pre @ [13, 10])"
proof -
  have "serial open_controller = Some open_port"
    by (simp add: open_controller_def init_def)
  moreover have "is_open open_port"
    by (simp add: open_port_def)
  ultimately show ?thesis
    by (rule send_command_terminated_once)
qed

text \<open>
  Claim C9. For every command string, the bytes written by \<open>send_command\<close> are those of
  \<open>strip cmd\<close> followed by CR LF: leading as well as trailing white space is removed
  before the terminator is appended, so two command strings that differ only in
  surrounding white space produce identical bytes on the wire (and the same result of
  \<open>send_command\<close> altogether).
\<close>
theorem send_command_strips_both_ends:
  "(\<forall>ser. serial self = Some ser \<and> is_open ser \<longrightarrow>
      (\<exists>response ser'.
         send_command self cmd = Inr (Some response, self\<lparr>serial := Some ser'\<rparr>) \<and>
         wire ser' = wire ser @ encode_utf8 (strip cmd) @ [13, 10])) \<and>
   (\<forall>l r. (\<forall>c\<in>set l. isspace c) \<and> (\<forall>c\<in>set r. isspace c) \<longrightarrow>
      strip (l @ cmd @ r) = strip cmd \<and>
      full_cmd (l @ cmd @ r) = full_cmd cmd \<and>
      send_command self (l @ cmd @ r) = send_command self cmd)"
proof (intro conjI allI impI)
  fix ser
  assume "serial self = Some ser \<and> is_open ser"
  then have "send_command self cmd =
      Inr (Some (strip (case inbox ser of [] \<Rightarrow> [] | r # rs \<Rightarrow> r)),
           self\<lparr>serial := Some (transmit ser [cmd])\<rparr>)"
    by (simp add: send_command_open)
  moreover have "wire (transmit ser [cmd]) = wire ser @ encode_utf8 (strip cmd) @ [13, 10]"
    by (simp add: wire_transmit full_cmd_bytes)
  ultimately show "\<exists>response ser'.
      send_command self cmd = Inr (Some response, self\<lparr>serial := Some ser'\<rparr>) \<and>
      wire ser' = wire ser @ encode_utf8 (strip cmd) @ [13, 10]"
    by blast
next
  fix l r
  assume a: "(\<forall>c\<in>set l. isspace c) \<and> (\<forall>c\<in>set r. isspace c)"
  then show s: "strip (l @ cmd @ r) = strip cmd"
    by (simp add: strip_surrounding)
  then show f: "full_cmd (l @ cmd @ r) = full_cmd cmd"
    by (simp add: full_cmd_def)
  show "send_command self (l @ cmd @ r) = send_command self cmd"
    unfolding send_command_def f by (rule refl)
qed

theorem send_command_strips_both_ends_witness:
  "(\<exists>response ser'.
      send_command open_controller ''G0 X5'' =
        Inr (Some response, open_controller\<lparr>serial := Some ser'\<rparr>) \<and>
      wire ser' = wire open_port @ encode_utf8 (strip ''G0 X5'') @ [13, 10]) \<and>
   send_command open_controller (''  '' @ ''G0 X5'' @ CRLF) = send_command open_controller ''G0 X5''"
proof -
  have o: "serial open_controller = Some open_port \<and> is_open open_port"
    by (simp add: open_controller_def init_def open_port_def)
  have w: "(\<forall>c\<in>set ''  ''. isspace c) \<and> (\<forall>c\<in>set CRLF. isspace c)"
    by code_simp
  from send_command_strips_both_ends [of open_controller "''G0 X5''"] o w show ?thesis
    by blast
qed

end
